theory Spec2Isabelle
  imports Main
begin

section \<open>Python values used by \<open>build_keyboard_adjacency_graphs.py\<close>\<close>

text \<open>
  The script is Python 3 (its literals hold non-ASCII characters without an encoding
  line), so a string is a sequence of code points. A \<^typ>\<open>char\<close> below stands for ONE code
  point below 256 (never for a UTF-8 byte): \<open>len\<close> is \<^const>\<open>length\<close>, and every character of
  the seven bundled diagrams is in that range. Integers are unbounded (\<^typ>\<open>int\<close>).
  Exceptions are values: a function that can raise returns \<open>error + 'a\<close>.
\<close>

datatype error =
    IndexError
  | ValueError
  | KeyError
  | AssertionError string

type_synonym coord = "int \<times> int"

text \<open>
  A \<open>dict\<close> keeps its keys in insertion order, and \<open>d[k] = v\<close> on a key that is already
  there replaces the value where the key stands. Both dictionaries of the script are
  association lists with that assignment; \<^const>\<open>map_of\<close> is \<open>d.get(k, None)\<close>.
\<close>

type_synonym position_table = "(coord \<times> string) list"
type_synonym adjacency_graph = "(char \<times> string option list) list"

fun dict_set :: "'k \<Rightarrow> 'v \<Rightarrow> ('k \<times> 'v) list \<Rightarrow> ('k \<times> 'v) list" where
  "dict_set k v [] = [(k, v)]"
| "dict_set k v (p # ps) = (if fst p = k then (k, v) # ps else p # dict_set k v ps)"

subsection \<open>\<open>str.split()\<close>, \<open>str.split('\n')\<close>, \<open>str.index\<close>\<close>

text \<open>
  \<open>str.isspace\<close> on the code points below 256: TAB, LF, VT, FF, CR, the four separators
  FS, GS, RS, US, the space, NEL (\<open>0x85\<close>) and the no-break space (\<open>0xA0\<close>).
\<close>

definition whitespace :: "char list" where
  "whitespace = [CHR 0x09, CHR 0x0A, CHR 0x0B, CHR 0x0C, CHR 0x0D,
                 CHR 0x1C, CHR 0x1D, CHR 0x1E, CHR 0x1F, CHR 0x20, CHR 0x85, CHR 0xA0]"

definition isspace :: "char \<Rightarrow> bool" where
  "isspace c = (c \<in> set whitespace)"

text \<open>
  \<open>s.split()\<close> with no argument: one left-to-right scan; \<open>cur\<close> is the token being read.
  Runs of whitespace separate tokens, and no token is empty.
\<close>

fun split_scan :: "string \<Rightarrow> string \<Rightarrow> string list" where
  "split_scan cur [] = (if cur = [] then [] else [cur])"
| "split_scan cur (c # cs) =
     (if isspace c then (if cur = [] then split_scan [] cs else cur # split_scan [] cs)
      else split_scan (cur @ [c]) cs)"

definition str_split :: "string \<Rightarrow> string list" where
  "str_split s = split_scan [] s"

text \<open>
  \<open>s.split(sep)\<close> for a separator of one character (the script's \<open>'\n'\<close>): every
  occurrence of the separator ends a piece, empty pieces are kept, and the empty string
  gives one empty piece.
\<close>

fun split_sep_scan :: "char \<Rightarrow> string \<Rightarrow> string \<Rightarrow> string list" where
  "split_sep_scan sep cur [] = [cur]"
| "split_sep_scan sep cur (c # cs) =
     (if c = sep then cur # split_sep_scan sep [] cs
      else split_sep_scan sep (cur @ [c]) cs)"

definition str_split_sep :: "char \<Rightarrow> string \<Rightarrow> string list" where
  "str_split_sep sep s = split_sep_scan sep [] s"

text \<open>
  \<open>s.index(sub)\<close>: the lowest offset at which \<open>sub\<close> starts in \<open>s\<close>; \<open>None\<close> stands for
  the \<open>ValueError\<close> of a substring that is not there.
\<close>

fun str_index :: "string \<Rightarrow> string \<Rightarrow> nat option" where
  "str_index [] sub = (if sub = [] then Some 0 else None)"
| "str_index (c # cs) sub =
     (if take (length sub) (c # cs) = sub then Some 0
      else map_option Suc (str_index cs sub))"

section \<open>The two geometries\<close>

definition get_slanted_adjacent_coords :: "int \<Rightarrow> int \<Rightarrow> coord list" where
  "get_slanted_adjacent_coords x y =
     [(x - 1, y), (x, y - 1), (x + 1, y - 1), (x + 1, y), (x, y + 1), (x - 1, y + 1)]"

definition get_aligned_adjacent_coords :: "int \<Rightarrow> int \<Rightarrow> coord list" where
  "get_aligned_adjacent_coords x y =
     [(x - 1, y), (x - 1, y - 1), (x, y - 1), (x + 1, y - 1),
      (x + 1, y), (x + 1, y + 1), (x, y + 1), (x - 1, y + 1)]"

section \<open>\<open>build_graph\<close>\<close>

subsection \<open>First loop: the position table\<close>

definition token_len_mismatch :: "string \<Rightarrow> string" where
  "token_len_mismatch layout_str = ''token len mismatch:'' @ [CHR 0x0A] @ '' '' @ layout_str"

definition unexpected_x_offset :: "string \<Rightarrow> string \<Rightarrow> string" where
  "unexpected_x_offset token layout_str =
     ''unexpected x offset for '' @ token @ '' in:'' @ [CHR 0x0A] @ layout_str"

text \<open>
  The body of \<open>for token in line.split()\<close>: \<open>divmod(line.index(token) - slant, x_unit)\<close>,
  the assertion on the remainder, and the assignment \<open>position_table[(x,y)] = token\<close>.
  Python's \<open>divmod\<close> rounds to minus infinity, as \<open>div\<close> and \<open>mod\<close> on \<^typ>\<open>int\<close> do.
\<close>

fun tokens_loop ::
  "string \<Rightarrow> int \<Rightarrow> int \<Rightarrow> int \<Rightarrow> string \<Rightarrow> position_table \<Rightarrow> string list
     \<Rightarrow> error + position_table" where
  "tokens_loop layout_str x_unit slant y line position_table [] = Inr position_table"
| "tokens_loop layout_str x_unit slant y line position_table (token # rest) =
     (case str_index line token of
        None \<Rightarrow> Inl ValueError
      | Some i \<Rightarrow>
          (let x = (int i - slant) div x_unit;
               remainder = (int i - slant) mod x_unit
           in if remainder \<noteq> 0 then Inl (AssertionError (unexpected_x_offset token layout_str))
              else tokens_loop layout_str x_unit slant y line
                     (dict_set (x, y) token position_table) rest))"

text \<open>The slant of row \<open>y\<close>: \<open>y - 1 if slanted else 0\<close>.\<close>

definition slant_of :: "bool \<Rightarrow> int \<Rightarrow> int" where
  "slant_of slanted y = (if slanted then y - 1 else 0)"

text \<open>The body of \<open>for y, line in enumerate(layout_str.split('\n'))\<close>.\<close>

fun lines_loop ::
  "string \<Rightarrow> bool \<Rightarrow> int \<Rightarrow> int \<Rightarrow> position_table \<Rightarrow> string list
     \<Rightarrow> error + position_table" where
  "lines_loop layout_str slanted x_unit y position_table [] = Inr position_table"
| "lines_loop layout_str slanted x_unit y position_table (line # rest) =
     (let slant = slant_of slanted y
      in case tokens_loop layout_str x_unit slant y line position_table (str_split line) of
           Inl e \<Rightarrow> Inl e
         | Inr position_table' \<Rightarrow>
             lines_loop layout_str slanted x_unit (y + 1) position_table' rest)"

text \<open>
  The first half of \<open>build_graph\<close>, up to the finished \<open>position_table\<close>:
  \<open>tokens[0]\<close> raises \<open>IndexError\<close> on a diagram with no token.
\<close>

definition build_position_table :: "string \<Rightarrow> bool \<Rightarrow> error + position_table" where
  "build_position_table layout_str slanted =
     (case str_split layout_str of
        [] \<Rightarrow> Inl IndexError
      | token0 # _ \<Rightarrow>
          (let token_size = length token0;
               x_unit = int token_size + 1
           in if \<not> list_all (\<lambda>token. length token = token_size) (str_split layout_str)
              then Inl (AssertionError (token_len_mismatch layout_str))
              else lines_loop layout_str slanted x_unit 0 []
                     (str_split_sep (CHR 0x0A) layout_str)))"

subsection \<open>Second loop: the adjacency graph\<close>

text \<open>
  \<open>for coord in adjacency_func(x, y): adjacency_graph[char].append(position_table.get(coord, None))\<close>.
  The subscript \<open>adjacency_graph[char]\<close> raises \<open>KeyError\<close> on a missing key.
\<close>

fun coords_loop ::
  "position_table \<Rightarrow> char \<Rightarrow> adjacency_graph \<Rightarrow> coord list \<Rightarrow> error + adjacency_graph" where
  "coords_loop position_table char adjacency_graph [] = Inr adjacency_graph"
| "coords_loop position_table char adjacency_graph (coord # rest) =
     (case map_of adjacency_graph char of
        None \<Rightarrow> Inl KeyError
      | Some slots \<Rightarrow>
          coords_loop position_table char
            (dict_set char (slots @ [map_of position_table coord]) adjacency_graph) rest)"

text \<open>\<open>for char in chars: adjacency_graph[char] = []\<close>, then the loop over the coordinates.\<close>

fun chars_loop ::
  "position_table \<Rightarrow> coord list \<Rightarrow> adjacency_graph \<Rightarrow> string \<Rightarrow> error + adjacency_graph" where
  "chars_loop position_table adjacent adjacency_graph [] = Inr adjacency_graph"
| "chars_loop position_table adjacent adjacency_graph (char # rest) =
     (case coords_loop position_table char (dict_set char [] adjacency_graph) adjacent of
        Inl e \<Rightarrow> Inl e
      | Inr adjacency_graph' \<Rightarrow> chars_loop position_table adjacent adjacency_graph' rest)"

text \<open>\<open>for (x,y), chars in position_table.items()\<close>, in insertion order.\<close>

fun items_loop ::
  "(int \<Rightarrow> int \<Rightarrow> coord list) \<Rightarrow> position_table \<Rightarrow> adjacency_graph \<Rightarrow> position_table
     \<Rightarrow> error + adjacency_graph" where
  "items_loop adjacency_func position_table adjacency_graph [] = Inr adjacency_graph"
| "items_loop adjacency_func position_table adjacency_graph (((x, y), chars) # rest) =
     (case chars_loop position_table (adjacency_func x y) adjacency_graph chars of
        Inl e \<Rightarrow> Inl e
      | Inr adjacency_graph' \<Rightarrow> items_loop adjacency_func position_table adjacency_graph' rest)"

definition adjacency_func :: "bool \<Rightarrow> int \<Rightarrow> int \<Rightarrow> coord list" where
  "adjacency_func slanted =
     (if slanted then get_slanted_adjacent_coords else get_aligned_adjacent_coords)"

definition build_graph :: "string \<Rightarrow> bool \<Rightarrow> error + adjacency_graph" where
  "build_graph layout_str slanted =
     (case build_position_table layout_str slanted of
        Inl e \<Rightarrow> Inl e
      | Inr position_table \<Rightarrow>
          items_loop (adjacency_func slanted) position_table [] position_table)"

section \<open>The bundled diagrams\<close>

text \<open>
  The raw literals begin and end with a line feed. \<open>qwerty_en\<close> and \<open>qwertz_de\<close> are in
  the set \<open>slanted\<close>; \<open>keypad\<close> and \<open>mac_keypad\<close> are not. The characters an Isabelle
  literal cannot hold are written by code point: \<open>0x27\<close> apostrophe, \<open>0x22\<close> double quote,
  \<open>0x5C\<close> backslash, and the Latin-1 letters and signs of the German diagram.
\<close>

definition layouts_qwerty_en :: string where
  "layouts_qwerty_en =
     [CHR 0x0A] @ ''`~ 1! 2@ 3# 4$ 5% 6^ 7& 8* 9( 0) -_ =+'' @
     [CHR 0x0A] @ ''    qQ wW eE rR tT yY uU iI oO pP [{ ]} '' @ [CHR 0x5C] @ ''|'' @
     [CHR 0x0A] @ ''     aA sS dD fF gG hH jJ kK lL ;: '' @ [CHR 0x27, CHR 0x22] @
     [CHR 0x0A] @ ''      zZ xX cC vV bB nN mM ,< .> /?'' @
     [CHR 0x0A]"

definition layouts_qwertz_de :: string where
  "layouts_qwertz_de =
     [CHR 0x0A] @ ''^'' @ [CHR 0xB0] @ '' 1! 2'' @ [CHR 0x22] @ '' 3'' @ [CHR 0xA7] @
                  '' 4$ 5% 6& 7/ 8( 9) 0= '' @ [CHR 0xDF] @ ''? '' @ [CHR 0xB4] @ ''`'' @
     [CHR 0x0A] @ ''    qQ wW eE rR tT zZ uU iI oO pP '' @ [CHR 0xFC, CHR 0xDC] @ '' +*'' @
     [CHR 0x0A] @ ''     aA sS dD fF gG hH jJ kK lL '' @ [CHR 0xF6, CHR 0xD6] @ '' '' @
                  [CHR 0xE4, CHR 0xC4] @ '' #'' @ [CHR 0x27] @
     [CHR 0x0A] @ ''   <> zZ xX cC vV bB nN mM ,; .: -_'' @
     [CHR 0x0A]"

definition layouts_keypad :: string where
  "layouts_keypad =
     [CHR 0x0A] @ ''  / * -'' @
     [CHR 0x0A] @ ''7 8 9 +'' @
     [CHR 0x0A] @ ''4 5 6'' @
     [CHR 0x0A] @ ''1 2 3'' @
     [CHR 0x0A] @ ''  0 .'' @
     [CHR 0x0A]"

definition layouts_mac_keypad :: string where
  "layouts_mac_keypad =
     [CHR 0x0A] @ ''  = / *'' @
     [CHR 0x0A] @ ''7 8 9 -'' @
     [CHR 0x0A] @ ''4 5 6 +'' @
     [CHR 0x0A] @ ''1 2 3'' @
     [CHR 0x0A] @ ''  0 .'' @
     [CHR 0x0A]"

section \<open>Auxiliary definitions for the statements\<close>

text \<open>
  What one round of the outer loop of the second half does for an item
  \<open>((x, y), chars)\<close> of the position table when nothing raises: every character of
  \<open>chars\<close> is assigned the list of the lookups at the offsets of \<open>(x, y)\<close>.
  Lemma \<open>items_loop_total\<close> shows that \<open>items_loop\<close> always returns this.
\<close>

definition key_slots ::
  "(int \<Rightarrow> int \<Rightarrow> coord list) \<Rightarrow> position_table \<Rightarrow> coord \<times> string
     \<Rightarrow> adjacency_graph \<Rightarrow> adjacency_graph" where
  "key_slots f pt item g =
     fold (\<lambda>char. dict_set char (map (map_of pt) (f (fst (fst item)) (snd (fst item)))))
       (snd item) g"

text \<open>
  The items of the position table whose legend holds the character \<open>c\<close>, in insertion
  order, and the slot list of a key at coordinate \<open>k\<close>: \<open>position_table.get(coord, None)\<close>
  for each offset of \<open>k\<close>, in the order of the offsets.
\<close>

definition keys_with :: "char \<Rightarrow> position_table \<Rightarrow> position_table" where
  "keys_with c position_table = filter (\<lambda>item. c \<in> set (snd item)) position_table"

definition slots_at :: "bool \<Rightarrow> position_table \<Rightarrow> coord \<Rightarrow> string option list" where
  "slots_at slanted position_table k =
     map (map_of position_table) (adjacency_func slanted (fst k) (snd k))"

section \<open>Dictionaries and the second loop\<close>

lemma map_of_dict_set: "map_of (dict_set k v d) = (map_of d)(k \<mapsto> v)"
  by (induction d) (auto simp: fun_eq_iff)

lemma keys_dict_set:
  "map fst (dict_set k v d) = (if k \<in> fst ` set d then map fst d else map fst d @ [k])"
  by (induction d) auto

lemma distinct_dict_set: "distinct (map fst d) \<Longrightarrow> distinct (map fst (dict_set k v d))"
  by (simp add: keys_dict_set)

lemma dict_set_idem: "dict_set k v (dict_set k w d) = dict_set k v d"
  by (induction d) auto

lemma dict_set_same: "map_of d k = Some v \<Longrightarrow> dict_set k v d = d"
  by (induction d) (auto split: if_splits)

lemma coords_loop_total:
  "map_of g char = Some slots \<Longrightarrow>
   coords_loop pt char g cs = Inr (dict_set char (slots @ map (map_of pt) cs) g)"
proof (induction cs arbitrary: g slots)
  case Nil
  then show ?case by (simp add: dict_set_same)
next
  case (Cons c cs)
  have "map_of (dict_set char (slots @ [map_of pt c]) g) char = Some (slots @ [map_of pt c])"
    by (simp add: map_of_dict_set)
  from Cons.IH [OF this] Cons.prems show ?case
    by (simp add: dict_set_idem)
qed

lemma chars_loop_total:
  "chars_loop pt adjacent g chars =
     Inr (fold (\<lambda>char. dict_set char (map (map_of pt) adjacent)) chars g)"
proof (induction chars arbitrary: g)
  case Nil
  show ?case by simp
next
  case (Cons c chars)
  have "map_of (dict_set c [] g) c = Some []"
    by (simp add: map_of_dict_set)
  then have "coords_loop pt c (dict_set c [] g) adjacent =
               Inr (dict_set c (map (map_of pt) adjacent) g)"
    by (simp add: coords_loop_total dict_set_idem)
  then show ?case by (simp add: Cons.IH)
qed

lemma items_loop_total:
  "items_loop f pt g items = Inr (fold (key_slots f pt) items g)"
  by (induction items arbitrary: g) (auto simp: chars_loop_total key_slots_def)

lemma map_of_fold_dict_set:
  "map_of (fold (\<lambda>c. dict_set c v) cs g) c' = (if c' \<in> set cs then Some v else map_of g c')"
  by (induction cs arbitrary: g) (auto simp: map_of_dict_set)

lemma keys_fold_dict_set:
  "fst ` set (fold (\<lambda>c. dict_set c v) cs g) = fst ` set g \<union> set cs"
proof (induction cs arbitrary: g)
  case Nil show ?case by simp
next
  case (Cons c cs)
  have "fst ` set (dict_set c v g) = insert c (fst ` set g)"
    using keys_dict_set [of c v g] by (metis (no_types, lifting) insert_absorb list.set_map set_append list.simps(15) Un_insert_right sup_bot.right_neutral empty_set)
  with Cons show ?case by auto
qed

lemma distinct_fold_dict_set:
  "distinct (map fst g) \<Longrightarrow> distinct (map fst (fold (\<lambda>c. dict_set c v) cs g))"
  by (induction cs arbitrary: g) (auto simp: distinct_dict_set)

lemma map_of_key_slots:
  "map_of (key_slots f pt item g) c =
     (if c \<in> set (snd item)
      then Some (map (map_of pt) (f (fst (fst item)) (snd (fst item))))
      else map_of g c)"
  by (simp add: key_slots_def map_of_fold_dict_set)

lemma map_of_items_fold:
  "map_of (fold (key_slots f pt) items g) c =
     (if filter (\<lambda>item. c \<in> set (snd item)) items = [] then map_of g c
      else Some (map (map_of pt)
             (f (fst (fst (last (filter (\<lambda>item. c \<in> set (snd item)) items))))
                (snd (fst (last (filter (\<lambda>item. c \<in> set (snd item)) items)))))))"
proof (induction items rule: rev_induct)
  case Nil
  show ?case by simp
next
  case (snoc item items)
  show ?case
    by (cases "c \<in> set (snd item)") (simp_all add: map_of_key_slots snoc.IH)
qed

lemma keys_items_fold:
  "fst ` set (fold (key_slots f pt) items g) = fst ` set g \<union> (\<Union>item\<in>set items. set (snd item))"
  by (induction items arbitrary: g) (auto simp: key_slots_def keys_fold_dict_set)

lemma distinct_items_fold:
  "distinct (map fst g) \<Longrightarrow> distinct (map fst (fold (key_slots f pt) items g))"
  by (induction items arbitrary: g) (auto simp: key_slots_def distinct_fold_dict_set)

section \<open>Splitting and searching strings\<close>

lemma isspace_LF: "isspace (CHR 0x0A)"
  by (simp add: isspace_def whitespace_def)

lemma split_scan_space_append:
  "isspace c \<Longrightarrow> split_scan a (xs @ c # ys) = split_scan a xs @ split_scan [] ys"
  by (induction xs arbitrary: a) auto

lemma split_scan_substring:
  "t \<in> set (split_scan cur s) \<Longrightarrow> \<exists>pre post. cur @ s = pre @ t @ post"
proof (induction s arbitrary: cur)
  case Nil
  then have "t = cur" by (auto split: if_splits)
  then have "cur @ [] = [] @ t @ []" by simp
  then show ?case by blast
next
  case (Cons c cs)
  show ?case
  proof (cases "isspace c")
    case False
    with Cons.prems have "t \<in> set (split_scan (cur @ [c]) cs)" by simp
    from Cons.IH [OF this] show ?thesis by simp
  next
    case True
    show ?thesis
    proof (cases "t = cur")
      case True
      then have "cur @ c # cs = [] @ t @ (c # cs)" by simp
      then show ?thesis by blast
    next
      case False
      with \<open>isspace c\<close> Cons.prems have "t \<in> set (split_scan [] cs)"
        by (auto split: if_splits)
      from Cons.IH [OF this] obtain pre post where "cs = pre @ t @ post" by auto
      then have "cur @ c # cs = (cur @ c # pre) @ t @ post" by simp
      then show ?thesis by blast
    qed
  qed
qed

lemma str_split_substring:
  "t \<in> set (str_split s) \<Longrightarrow> \<exists>pre post. s = pre @ t @ post"
  using split_scan_substring [of t "[]" s] by (simp add: str_split_def)

lemma str_split_lines:
  "isspace sep \<Longrightarrow>
   concat (map str_split (split_sep_scan sep cur s)) = str_split (cur @ s)"
proof (induction s arbitrary: cur)
  case Nil
  show ?case by simp
next
  case (Cons c cs)
  show ?case
  proof (cases "c = sep")
    case True
    with Cons show ?thesis
      by (simp add: str_split_def split_scan_space_append)
  next
    case False
    with Cons show ?thesis by simp
  qed
qed

lemma str_split_by_line:
  "str_split s = concat (map str_split (str_split_sep (CHR 0x0A) s))"
  using str_split_lines [OF isspace_LF, of "[]" s] by (simp add: str_split_sep_def)

lemma str_index_found:
  "str_index s sub = Some i \<Longrightarrow> take (length sub) (drop i s) = sub"
proof (induction s arbitrary: i)
  case Nil
  then show ?case by (auto split: if_splits)
next
  case (Cons c cs)
  then show ?case by (auto split: if_splits)
qed

lemma str_index_first:
  "str_index s sub = Some i \<Longrightarrow> j < i \<Longrightarrow> take (length sub) (drop j s) \<noteq> sub"
proof (induction s arbitrary: i j)
  case Nil
  then show ?case by (auto split: if_splits)
next
  case (Cons c cs)
  show ?case
  proof (cases "take (length sub) (c # cs) = sub")
    case True
    with Cons.prems show ?thesis by simp
  next
    case False
    with Cons.prems obtain i' where i': "str_index cs sub = Some i'" "i = Suc i'"
      by auto
    show ?thesis
    proof (cases j)
      case 0
      with False show ?thesis by simp
    next
      case (Suc j')
      with Cons.prems(2) i' have "j' < i'" by simp
      from Cons.IH [OF i'(1) this] Suc show ?thesis by simp
    qed
  qed
qed

lemma str_index_substring: "str_index (pre @ sub @ post) sub \<noteq> None"
proof (induction pre)
  case Nil
  have "take (length sub) (sub @ post) = sub" by simp
  then show ?case by (cases "sub @ post") (simp_all del: take_append)
next
  case (Cons a pre)
  then show ?case by auto
qed

lemma str_index_token:
  "t \<in> set (str_split line) \<Longrightarrow> \<exists>i. str_index line t = Some i"
  using str_split_substring [of t line] str_index_substring by fastforce

lemma same_offset_same_token:
  assumes "str_index line t1 = Some i" "str_index line t2 = Some i" "length t1 = length t2"
  shows "t1 = t2"
proof -
  have "t1 = take (length t1) (drop i line)"
    using str_index_found [OF assms(1)] by (rule sym)
  also have "\<dots> = take (length t2) (drop i line)"
    by (simp only: assms(3))
  also have "\<dots> = t2"
    by (rule str_index_found [OF assms(2)])
  finally show ?thesis .
qed

lemma divmod_inj:
  fixes a b u :: int
  assumes "a mod u = 0" "b mod u = 0" "a div u = b div u"
  shows "a = b"
  using assms by (metis mult_div_mod_eq add.right_neutral)

section \<open>The first loop\<close>

lemma tokens_loop_Inr_tokens:
  "tokens_loop L u sl y line pt ts = Inr pt' \<Longrightarrow> t \<in> set ts \<Longrightarrow>
   \<exists>i. str_index line t = Some i \<and> (int i - sl) mod u = 0"
  by (induction ts arbitrary: pt) (auto simp: Let_def split: option.splits if_splits)

lemma tokens_loop_total:
  "(\<And>t. t \<in> set ts \<Longrightarrow> \<exists>i. str_index line t = Some i \<and> (int i - sl) mod u = 0) \<Longrightarrow>
   \<exists>pt'. tokens_loop L u sl y line pt ts = Inr pt'"
proof (induction ts arbitrary: pt)
  case Nil
  show ?case by simp
next
  case (Cons a ts)
  from Cons.prems [of a] obtain i where "str_index line a = Some i" "(int i - sl) mod u = 0"
    by auto
  moreover have "\<exists>pt'. tokens_loop L u sl y line (dict_set ((int i - sl) div u, y) a pt) ts = Inr pt'"
    by (rule Cons.IH) (simp add: Cons.prems)
  ultimately show ?case by (simp add: Let_def)
qed

lemma tokens_loop_fail:
  "tokens_loop L u sl y line pt ts = Inl e \<Longrightarrow> (\<And>t. t \<in> set ts \<Longrightarrow> str_index line t \<noteq> None) \<Longrightarrow>
   \<exists>t. t \<in> set ts \<and> e = AssertionError (unexpected_x_offset t L)"
proof (induction ts arbitrary: pt)
  case Nil
  then show ?case by simp
next
  case (Cons a ts)
  from Cons.prems(2) [of a] obtain i where i: "str_index line a = Some i" by auto
  show ?case
  proof (cases "(int i - sl) mod u = 0")
    case False
    with i Cons.prems(1) show ?thesis by (auto simp: Let_def)
  next
    case True
    with i Cons.prems(1)
    have "tokens_loop L u sl y line (dict_set ((int i - sl) div u, y) a pt) ts = Inl e"
      by (simp add: Let_def)
    from Cons.IH [OF this] Cons.prems(2) show ?thesis by auto
  qed
qed

lemma tokens_loop_sound:
  "tokens_loop L u sl y line pt ts = Inr pt' \<Longrightarrow> map_of pt' k = Some v \<Longrightarrow>
   map_of pt k = Some v \<or>
   (v \<in> set ts \<and> (\<exists>i. str_index line v = Some i \<and> (int i - sl) mod u = 0 \<and>
                        k = ((int i - sl) div u, y)))"
proof (induction ts arbitrary: pt)
  case Nil
  then show ?case by simp
next
  case (Cons a ts)
  from Cons.prems(1) obtain i where i: "str_index line a = Some i" "(int i - sl) mod u = 0"
    and rest: "tokens_loop L u sl y line (dict_set ((int i - sl) div u, y) a pt) ts = Inr pt'"
    by (auto simp: Let_def split: option.splits if_splits)
  from Cons.IH [OF rest Cons.prems(2)] i show ?case
    by (auto simp: map_of_dict_set split: if_splits)
qed

lemma tokens_loop_other_rows:
  "tokens_loop L u sl y line pt ts = Inr pt' \<Longrightarrow> snd k \<noteq> y \<Longrightarrow> map_of pt' k = map_of pt k"
proof (induction ts arbitrary: pt)
  case Nil
  then show ?case by simp
next
  case (Cons a ts)
  from Cons.prems(1) obtain i where
    rest: "tokens_loop L u sl y line (dict_set ((int i - sl) div u, y) a pt) ts = Inr pt'"
    by (auto simp: Let_def split: option.splits if_splits)
  from Cons.IH [OF rest Cons.prems(2)] Cons.prems(2) show ?case
    by (auto simp: map_of_dict_set)
qed

lemma tokens_loop_keep:
  assumes "tokens_loop L u sl y line pt ts = Inr pt'"
    and "map_of pt ((int i - sl) div u, y) = Some v"
    and "str_index line v = Some i" and "(int i - sl) mod u = 0"
    and "\<And>t. t \<in> set ts \<Longrightarrow> length t = length v"
  shows "map_of pt' ((int i - sl) div u, y) = Some v"
  using assms(1,2,5)
proof (induction ts arbitrary: pt)
  case Nil
  then show ?case by simp
next
  case (Cons a ts)
  from Cons.prems(1) obtain ia where ia: "str_index line a = Some ia" "(int ia - sl) mod u = 0"
    and rest: "tokens_loop L u sl y line (dict_set ((int ia - sl) div u, y) a pt) ts = Inr pt'"
    by (auto simp: Let_def split: option.splits if_splits)
  have "map_of (dict_set ((int ia - sl) div u, y) a pt) ((int i - sl) div u, y) = Some v"
  proof (cases "(int ia - sl) div u = (int i - sl) div u")
    case False
    with Cons.prems(2) show ?thesis by (simp add: map_of_dict_set)
  next
    case True
    from divmod_inj [OF ia(2) assms(4) True] have "ia = i" by simp
    with ia(1) assms(3) Cons.prems(3) [of a] have "a = v"
      by (auto intro: same_offset_same_token)
    with True show ?thesis by (simp add: map_of_dict_set)
  qed
  from Cons.IH [OF rest this] Cons.prems(3) show ?case by simp
qed

lemma tokens_loop_complete:
  assumes "tokens_loop L u sl y line pt ts = Inr pt'"
    and "\<And>t. t \<in> set ts \<Longrightarrow> length t = n"
    and "t \<in> set ts" and "str_index line t = Some i"
  shows "map_of pt' ((int i - sl) div u, y) = Some t"
  using assms(1,2,3)
proof (induction ts arbitrary: pt)
  case Nil
  then show ?case by simp
next
  case (Cons a ts)
  from Cons.prems(1) obtain ia where ia: "str_index line a = Some ia" "(int ia - sl) mod u = 0"
    and rest: "tokens_loop L u sl y line (dict_set ((int ia - sl) div u, y) a pt) ts = Inr pt'"
    by (auto simp: Let_def split: option.splits if_splits)
  show ?case
  proof (cases "t \<in> set ts")
    case True
    from Cons.IH [OF rest _ True] Cons.prems(2) show ?thesis by simp
  next
    case False
    with Cons.prems(3) have "t = a" by simp
    with ia assms(4) have eq: "ia = i" by simp
    have len: "\<And>t'. t' \<in> set ts \<Longrightarrow> length t' = length t"
      using Cons.prems(2) Cons.prems(3) by (metis list.set_intros(2))
    from rest eq \<open>t = a\<close>
    have rest': "tokens_loop L u sl y line (dict_set ((int i - sl) div u, y) t pt) ts = Inr pt'"
      by simp
    from ia eq have mod0: "(int i - sl) mod u = 0" by simp
    have "map_of (dict_set ((int i - sl) div u, y) t pt) ((int i - sl) div u, y) = Some t"
      by (simp add: map_of_dict_set)
    then show ?thesis
      by (rule tokens_loop_keep [OF rest' _ assms(4) mod0 len])
  qed
qed

lemma tokens_loop_distinct:
  "tokens_loop L u sl y line pt ts = Inr pt' \<Longrightarrow> distinct (map fst pt) \<Longrightarrow>
   distinct (map fst pt')"
proof (induction ts arbitrary: pt)
  case Nil
  then show ?case by simp
next
  case (Cons a ts)
  from Cons.prems(1) obtain i where
    rest: "tokens_loop L u sl y line (dict_set ((int i - sl) div u, y) a pt) ts = Inr pt'"
    by (auto simp: Let_def split: option.splits if_splits)
  from Cons.IH [OF rest] Cons.prems(2) show ?case by (simp add: distinct_dict_set)
qed

lemma lines_loop_Inr_tokens:
  "lines_loop L s u y pt ls = Inr pt' \<Longrightarrow> j < length ls \<Longrightarrow> t \<in> set (str_split (ls ! j)) \<Longrightarrow>
   \<exists>i. str_index (ls ! j) t = Some i \<and>
       (int i - slant_of s (y + int j)) mod u = 0"
proof (induction ls arbitrary: y pt j)
  case Nil
  then show ?case by simp
next
  case (Cons l ls)
  from Cons.prems(1) obtain pt1 where
    line: "tokens_loop L u (slant_of s y) y l pt (str_split l) = Inr pt1"
    and rest: "lines_loop L s u (y + 1) pt1 ls = Inr pt'"
    by (auto simp: Let_def split: sum.splits)
  show ?case
  proof (cases j)
    case 0
    with Cons.prems(3) tokens_loop_Inr_tokens [OF line, of t] show ?thesis by simp
  next
    case (Suc j')
    with Cons.prems have "j' < length ls" "t \<in> set (str_split (ls ! j'))" by simp_all
    from Cons.IH [OF rest this] Suc show ?thesis by (simp add: algebra_simps)
  qed
qed

lemma lines_loop_total:
  "(\<And>j t. j < length ls \<Longrightarrow> t \<in> set (str_split (ls ! j)) \<Longrightarrow>
      \<exists>i. str_index (ls ! j) t = Some i \<and>
          (int i - slant_of s (y + int j)) mod u = 0) \<Longrightarrow>
   \<exists>pt'. lines_loop L s u y pt ls = Inr pt'"
proof (induction ls arbitrary: y pt)
  case Nil
  show ?case by simp
next
  case (Cons l ls)
  have "\<exists>pt1. tokens_loop L u (slant_of s y) y l pt (str_split l) = Inr pt1"
  proof (rule tokens_loop_total)
    fix t assume "t \<in> set (str_split l)"
    with Cons.prems [of 0 t]
    show "\<exists>i. str_index l t = Some i \<and> (int i - slant_of s y) mod u = 0"
      by simp
  qed
  then obtain pt1 where
    line: "tokens_loop L u (slant_of s y) y l pt (str_split l) = Inr pt1" ..
  have "\<exists>pt'. lines_loop L s u (y + 1) pt1 ls = Inr pt'"
  proof (rule Cons.IH)
    fix j t assume "j < length ls" "t \<in> set (str_split (ls ! j))"
    with Cons.prems [of "Suc j" t]
    show "\<exists>i. str_index (ls ! j) t = Some i \<and>
              (int i - slant_of s (y + 1 + int j)) mod u = 0"
      by (simp add: algebra_simps)
  qed
  with line show ?case by (simp add: Let_def)
qed

lemma lines_loop_fail:
  "lines_loop L s u y pt ls = Inl e \<Longrightarrow>
   \<exists>l t. l \<in> set ls \<and> t \<in> set (str_split l) \<and> e = AssertionError (unexpected_x_offset t L)"
proof (induction ls arbitrary: y pt)
  case Nil
  then show ?case by simp
next
  case (Cons l ls)
  show ?case
  proof (cases "tokens_loop L u (slant_of s y) y l pt (str_split l)")
    case (Inl e')
    with Cons.prems have "e' = e" by (simp add: Let_def)
    have "\<exists>t. t \<in> set (str_split l) \<and> e = AssertionError (unexpected_x_offset t L)"
    proof (rule tokens_loop_fail)
      show "tokens_loop L u (slant_of s y) y l pt (str_split l) = Inl e"
        using Inl \<open>e' = e\<close> by simp
    next
      fix t assume "t \<in> set (str_split l)"
      from str_index_token [OF this] show "str_index l t \<noteq> None" by auto
    qed
    then show ?thesis by auto
  next
    case (Inr pt1)
    with Cons.prems have "lines_loop L s u (y + 1) pt1 ls = Inl e" by (simp add: Let_def)
    from Cons.IH [OF this] show ?thesis by auto
  qed
qed

lemma lines_loop_sound:
  "lines_loop L s u y pt ls = Inr pt' \<Longrightarrow> map_of pt' k = Some v \<Longrightarrow>
   map_of pt k = Some v \<or>
   (\<exists>j i. j < length ls \<and> v \<in> set (str_split (ls ! j)) \<and> str_index (ls ! j) v = Some i \<and>
          (int i - slant_of s (y + int j)) mod u = 0 \<and>
          k = ((int i - slant_of s (y + int j)) div u, y + int j))"
proof (induction ls arbitrary: y pt)
  case Nil
  then show ?case by simp
next
  case (Cons l ls)
  from Cons.prems(1) obtain pt1 where
    line: "tokens_loop L u (slant_of s y) y l pt (str_split l) = Inr pt1"
    and rest: "lines_loop L s u (y + 1) pt1 ls = Inr pt'"
    by (auto simp: Let_def split: sum.splits)
  from Cons.IH [OF rest Cons.prems(2)] show ?case
  proof (elim disjE exE conjE)
    assume "map_of pt1 k = Some v"
    from tokens_loop_sound [OF line this] show ?thesis
    proof (elim disjE exE conjE)
      assume "map_of pt k = Some v"
      then show ?thesis by (rule disjI1)
    next
      fix i
      assume "v \<in> set (str_split l)" "str_index l v = Some i"
        "(int i - slant_of s y) mod u = 0" "k = ((int i - slant_of s y) div u, y)"
      then show ?thesis
        by (intro disjI2 exI [of _ "0::nat"] exI [of _ i]) simp
    qed
  next
    fix j i
    assume "j < length ls" "v \<in> set (str_split (ls ! j))" "str_index (ls ! j) v = Some i"
      "(int i - slant_of s (y + 1 + int j)) mod u = 0"
      "k = ((int i - slant_of s (y + 1 + int j)) div u, y + 1 + int j)"
    then show ?thesis
      by (intro disjI2 exI [of _ "Suc j"] exI [of _ i]) (simp add: algebra_simps)
  qed
qed

lemma lines_loop_rows_before:
  "lines_loop L s u y pt ls = Inr pt' \<Longrightarrow> snd k < y \<Longrightarrow> map_of pt' k = map_of pt k"
proof (induction ls arbitrary: y pt)
  case Nil
  then show ?case by simp
next
  case (Cons l ls)
  from Cons.prems(1) obtain pt1 where
    line: "tokens_loop L u (slant_of s y) y l pt (str_split l) = Inr pt1"
    and rest: "lines_loop L s u (y + 1) pt1 ls = Inr pt'"
    by (auto simp: Let_def split: sum.splits)
  from Cons.prems(2) have "map_of pt' k = map_of pt1 k"
    by (intro Cons.IH [OF rest]) simp
  also from Cons.prems(2) have "\<dots> = map_of pt k"
    by (intro tokens_loop_other_rows [OF line]) simp
  finally show ?case .
qed

lemma lines_loop_complete:
  assumes "lines_loop L s u y pt ls = Inr pt'"
    and "\<And>l t. l \<in> set ls \<Longrightarrow> t \<in> set (str_split l) \<Longrightarrow> length t = n"
    and "j < length ls" and "t \<in> set (str_split (ls ! j))"
    and "str_index (ls ! j) t = Some i"
  shows "map_of pt' ((int i - slant_of s (y + int j)) div u, y + int j) = Some t"
  using assms
proof (induction ls arbitrary: y pt j)
  case Nil
  then show ?case by simp
next
  case (Cons l ls)
  from Cons.prems(1) obtain pt1 where
    line: "tokens_loop L u (slant_of s y) y l pt (str_split l) = Inr pt1"
    and rest: "lines_loop L s u (y + 1) pt1 ls = Inr pt'"
    by (auto simp: Let_def split: sum.splits)
  have len_l: "\<And>t'. t' \<in> set (str_split l) \<Longrightarrow> length t' = n"
    by (rule Cons.prems(2) [of l]) simp_all
  have len_ls: "\<And>l' t'. l' \<in> set ls \<Longrightarrow> t' \<in> set (str_split l') \<Longrightarrow> length t' = n"
    by (rule Cons.prems(2)) simp_all
  show ?case
  proof (cases j)
    case 0
    with Cons.prems(4,5) have t: "t \<in> set (str_split l)" "str_index l t = Some i" by simp_all
    have "map_of pt1 ((int i - slant_of s y) div u, y) = Some t"
      by (rule tokens_loop_complete [where n = n, OF line len_l t])
    moreover have "map_of pt' ((int i - slant_of s y) div u, y) =
        map_of pt1 ((int i - slant_of s y) div u, y)"
      by (rule lines_loop_rows_before [OF rest]) simp
    ultimately show ?thesis using 0 by simp
  next
    case (Suc j')
    with Cons.prems(3,4,5) have j': "j' < length ls" "t \<in> set (str_split (ls ! j'))"
      "str_index (ls ! j') t = Some i" by simp_all
    have "map_of pt' ((int i - slant_of s (y + 1 + int j')) div u, y + 1 + int j') = Some t"
      by (rule Cons.IH [OF rest len_ls j'])
    with Suc show ?thesis by (simp add: algebra_simps)
  qed
qed

lemma lines_loop_distinct:
  "lines_loop L s u y pt ls = Inr pt' \<Longrightarrow> distinct (map fst pt) \<Longrightarrow> distinct (map fst pt')"
proof (induction ls arbitrary: y pt)
  case Nil
  then show ?case by simp
next
  case (Cons l ls)
  from Cons.prems(1) obtain pt1 where
    line: "tokens_loop L u (slant_of s y) y l pt (str_split l) = Inr pt1"
    and rest: "lines_loop L s u (y + 1) pt1 ls = Inr pt'"
    by (auto simp: Let_def split: sum.splits)
  from Cons.IH [OF rest tokens_loop_distinct [OF line Cons.prems(2)]] show ?case .
qed

lemma token_of_line:
  "l \<in> set (str_split_sep (CHR 0x0A) L) \<Longrightarrow> t \<in> set (str_split l) \<Longrightarrow> t \<in> set (str_split L)"
  by (subst str_split_by_line) auto

lemma token_has_line:
  assumes "t \<in> set (str_split L)"
  shows "\<exists>j. j < length (str_split_sep (CHR 0x0A) L) \<and>
             t \<in> set (str_split (str_split_sep (CHR 0x0A) L ! j))"
proof -
  from assms have "t \<in> set (concat (map str_split (str_split_sep (CHR 0x0A) L)))"
    by (simp add: str_split_by_line [symmetric])
  then obtain l where "l \<in> set (str_split_sep (CHR 0x0A) L)" "t \<in> set (str_split l)"
    by auto
  then show ?thesis by (auto simp: in_set_conv_nth)
qed

lemma build_position_table_Inr:
  assumes "build_position_table L s = Inr pt"
  shows "\<exists>token0 more. str_split L = token0 # more \<and>
           (\<forall>t. t \<in> set (str_split L) \<longrightarrow> length t = length token0) \<and>
           lines_loop L s (int (length token0) + 1) 0 [] (str_split_sep (CHR 0x0A) L) = Inr pt"
proof (cases "str_split L")
  case Nil
  with assms show ?thesis by (simp add: build_position_table_def)
next
  case (Cons token0 more)
  with assms have all: "list_all (\<lambda>token. length token = length token0) (str_split L)"
    and loop: "lines_loop L s (int (length token0) + 1) 0 [] (str_split_sep (CHR 0x0A) L) = Inr pt"
    by (auto simp: build_position_table_def Let_def split: if_splits)
  from all have "\<forall>t. t \<in> set (str_split L) \<longrightarrow> length t = length token0"
    by (simp add: list_all_iff)
  with Cons loop show ?thesis
    by (intro exI [of _ token0] exI [of _ more] conjI)
qed

lemma position_table_distinct:
  assumes "build_position_table L s = Inr pt"
  shows "distinct (map fst pt)"
proof -
  from build_position_table_Inr [OF assms] obtain token0 :: string where
    "lines_loop L s (int (length token0) + 1) 0 [] (str_split_sep (CHR 0x0A) L) = Inr pt"
    by (elim exE conjE)
  from lines_loop_distinct [OF this] show ?thesis by simp
qed

lemma position_table_has_token:
  assumes "build_position_table L s = Inr pt" and "str_split L = token0 # more"
    and "y < length (str_split_sep (CHR 0x0A) L)"
    and "t \<in> set (str_split (str_split_sep (CHR 0x0A) L ! y))"
  shows "\<exists>i. str_index (str_split_sep (CHR 0x0A) L ! y) t = Some i \<and>
             (int i - slant_of s (int y)) mod (int (length token0) + 1) = 0 \<and>
             map_of pt ((int i - slant_of s (int y)) div (int (length token0) + 1), int y) = Some t"
proof -
  from build_position_table_Inr [OF assms(1)] obtain t0 m where t0: "str_split L = t0 # m"
    and len0: "\<forall>t. t \<in> set (str_split L) \<longrightarrow> length t = length t0"
    and loop0: "lines_loop L s (int (length t0) + 1) 0 [] (str_split_sep (CHR 0x0A) L) = Inr pt"
    by (elim exE conjE)
  from t0 assms(2) have eq: "t0 = token0" by simp
  from loop0 have loop:
    "lines_loop L s (int (length token0) + 1) 0 [] (str_split_sep (CHR 0x0A) L) = Inr pt"
    by (simp only: eq)
  have len: "length t' = length token0" if "t' \<in> set (str_split L)" for t'
    using len0 that by (simp only: eq)
  from lines_loop_Inr_tokens [OF loop assms(3,4)] obtain i where
    i: "str_index (str_split_sep (CHR 0x0A) L ! y) t = Some i"
    and m: "(int i - slant_of s (0 + int y)) mod (int (length token0) + 1) = 0"
    by (elim exE conjE)
  have "map_of pt ((int i - slant_of s (0 + int y)) div (int (length token0) + 1), 0 + int y) = Some t"
  proof (rule lines_loop_complete [OF loop _ assms(3,4) i])
    fix l t' assume "l \<in> set (str_split_sep (CHR 0x0A) L)" "t' \<in> set (str_split l)"
    then have "t' \<in> set (str_split L)" by (rule token_of_line)
    then show "length t' = length token0" by (rule len)
  qed
  then have "map_of pt ((int i - slant_of s (int y)) div (int (length token0) + 1), int y) = Some t"
    by (simp only: add_0)
  moreover from m have "(int i - slant_of s (int y)) mod (int (length token0) + 1) = 0"
    by (simp only: add_0)
  ultimately show ?thesis using i by (intro exI [of _ i] conjI)
qed

lemma position_table_entry:
  assumes "build_position_table L s = Inr pt" and "str_split L = token0 # more"
    and "map_of pt k = Some v"
  shows "\<exists>j i. j < length (str_split_sep (CHR 0x0A) L) \<and>
            v \<in> set (str_split (str_split_sep (CHR 0x0A) L ! j)) \<and>
            str_index (str_split_sep (CHR 0x0A) L ! j) v = Some i \<and>
            (int i - slant_of s (int j)) mod (int (length token0) + 1) = 0 \<and>
            k = ((int i - slant_of s (int j)) div (int (length token0) + 1), int j)"
proof -
  from build_position_table_Inr [OF assms(1)] obtain t0 m where t0: "str_split L = t0 # m"
    and loop0: "lines_loop L s (int (length t0) + 1) 0 [] (str_split_sep (CHR 0x0A) L) = Inr pt"
    by (elim exE conjE)
  from t0 assms(2) have eq: "t0 = token0" by simp
  from loop0 have loop:
    "lines_loop L s (int (length token0) + 1) 0 [] (str_split_sep (CHR 0x0A) L) = Inr pt"
    by (simp only: eq)
  from lines_loop_sound [OF loop assms(3)] show ?thesis
    by (simp only: add_0 map_of.simps option.simps simp_thms)
qed

lemma build_position_table_total:
  assumes "str_split L = token0 # more"
    and "\<And>t. t \<in> set more \<Longrightarrow> length t = length token0"
    and "\<And>y t. y < length (str_split_sep (CHR 0x0A) L) \<Longrightarrow>
           t \<in> set (str_split (str_split_sep (CHR 0x0A) L ! y)) \<Longrightarrow>
           \<exists>i. str_index (str_split_sep (CHR 0x0A) L ! y) t = Some i \<and>
               (int i - slant_of s (int y)) mod (int (length token0) + 1) = 0"
  shows "\<exists>pt. build_position_table L s = Inr pt"
proof -
  have "\<exists>pt. lines_loop L s (int (length token0) + 1) 0 [] (str_split_sep (CHR 0x0A) L) = Inr pt"
    by (rule lines_loop_total) (simp add: assms(3))
  moreover from assms(1,2) have "list_all (\<lambda>token. length token = length token0) (str_split L)"
    by (simp add: list_all_iff)
  ultimately show ?thesis using assms(1) by (simp add: build_position_table_def)
qed

lemma build_position_table_fail:
  assumes "build_position_table L s = Inl e"
  shows "e = IndexError \<or> e = AssertionError (token_len_mismatch L) \<or>
         (\<exists>t. t \<in> set (str_split L) \<and> e = AssertionError (unexpected_x_offset t L))"
proof (cases "str_split L")
  case Nil
  with assms show ?thesis by (simp add: build_position_table_def)
next
  case (Cons token0 more)
  show ?thesis
  proof (cases "list_all (\<lambda>token. length token = length token0) (str_split L)")
    case False
    with Cons assms show ?thesis by (simp add: build_position_table_def)
  next
    case True
    with Cons assms
    have "lines_loop L s (int (length token0) + 1) 0 [] (str_split_sep (CHR 0x0A) L) = Inl e"
      by (simp add: build_position_table_def)
    from lines_loop_fail [OF this] obtain l t where "l \<in> set (str_split_sep (CHR 0x0A) L)"
      "t \<in> set (str_split l)" "e = AssertionError (unexpected_x_offset t L)"
      by (elim exE conjE)
    with token_of_line [of l L t] show ?thesis by (intro disjI2 exI [of _ t]) simp
  qed
qed

lemma build_graph_of_table:
  "build_position_table L s = Inr pt \<Longrightarrow>
   build_graph L s = Inr (fold (key_slots (adjacency_func s) pt) pt [])"
  by (simp add: build_graph_def items_loop_total)

lemma build_graph_Inr:
  assumes "build_graph L s = Inr g"
  obtains pt where "build_position_table L s = Inr pt"
    and "g = fold (key_slots (adjacency_func s) pt) pt []"
  using assms by (auto simp: build_graph_def items_loop_total split: sum.splits)

lemma build_graph_Inl:
  "build_graph L s = Inl e \<Longrightarrow> build_position_table L s = Inl e"
  by (auto simp: build_graph_def items_loop_total split: sum.splits)

lemma length_adjacency_func: "length (adjacency_func s x y) = (if s then 6 else 8)"
  by (simp add: adjacency_func_def get_slanted_adjacent_coords_def
        get_aligned_adjacent_coords_def)

section \<open>The graph of a finished position table\<close>

lemma graph_entry:
  assumes "build_position_table L s = Inr pt"
  shows "\<exists>g. build_graph L s = Inr g \<and> distinct (map fst g) \<and>
           fst ` set g = (\<Union>item\<in>set pt. set (snd item)) \<and>
           (\<forall>c. map_of g c =
              (if keys_with c pt = [] then None
               else Some (slots_at s pt (fst (last (keys_with c pt))))))"
proof -
  let ?g = "fold (key_slots (adjacency_func s) pt) pt []"
  have "build_graph L s = Inr ?g"
    by (rule build_graph_of_table [OF assms])
  moreover have "distinct (map fst ?g)"
    by (rule distinct_items_fold) simp
  moreover have "fst ` set ?g = (\<Union>item\<in>set pt. set (snd item))"
    by (simp add: keys_items_fold)
  moreover have "\<forall>c. map_of ?g c =
      (if keys_with c pt = [] then None
       else Some (slots_at s pt (fst (last (keys_with c pt)))))"
    by (simp add: map_of_items_fold keys_with_def slots_at_def)
  ultimately show ?thesis by blast
qed

lemma one_entry:
  "distinct (map fst g) \<Longrightarrow> c \<in> fst ` set g \<Longrightarrow> length (filter (\<lambda>entry. fst entry = c) g) = 1"
proof (induction g)
  case Nil
  then show ?case by simp
next
  case (Cons e g)
  show ?case
  proof (cases "fst e = c")
    case True
    from Cons.prems(1) have "fst e \<notin> fst ` set g" by simp
    with True have "\<And>entry. entry \<in> set g \<Longrightarrow> fst entry \<noteq> c"
      by (metis imageI)
    then have "filter (\<lambda>entry. fst entry = c) g = []"
      by (simp add: filter_empty_conv)
    with True show ?thesis by simp
  next
    case False
    with Cons show ?thesis by auto
  qed
qed

lemma keys_with_nonempty:
  "(k, legend) \<in> set pt \<Longrightarrow> c \<in> set legend \<Longrightarrow> keys_with c pt \<noteq> []"
  by (force simp: keys_with_def filter_empty_conv)

lemma None_in_slots:
  "None \<in> set (slots_at s pt k) \<longleftrightarrow>
     (\<exists>coord \<in> set (adjacency_func s (fst k) (snd k)). map_of pt coord = None)"
  by (force simp: slots_at_def image_iff)

lemma length_slots_at: "length (slots_at s pt k) = (if s then 6 else 8)"
  by (simp add: slots_at_def length_adjacency_func)

lemma singleton_list: "distinct xs \<Longrightarrow> set xs = {a} \<Longrightarrow> xs = [a]"
proof (cases xs)
  case Nil
  assume "set xs = {a}"
  with Nil show ?thesis by simp
next
  case (Cons x ys)
  assume d: "distinct xs" and s: "set xs = {a}"
  from s Cons have "x = a" by auto
  from s Cons have "set ys \<subseteq> {a}" by auto
  moreover from d Cons \<open>x = a\<close> have "a \<notin> set ys" by simp
  ultimately have "ys = []" by (cases ys) auto
  with \<open>x = a\<close> Cons show ?thesis by simp
qed

lemma position_table_has_token_line:
  assumes "build_position_table L s = Inr pt" and "str_split L = token0 # more"
    and "y < length (str_split_sep (CHR 0x0A) L)"
    and "line = str_split_sep (CHR 0x0A) L ! y"
    and "t \<in> set (str_split line)"
  shows "\<exists>i. str_index line t = Some i \<and>
             (int i - slant_of s (int y)) mod (int (length token0) + 1) = 0 \<and>
             map_of pt ((int i - slant_of s (int y)) div (int (length token0) + 1), int y) = Some t"
proof -
  from assms(5) have "t \<in> set (str_split (str_split_sep (CHR 0x0A) L ! y))"
    by (simp only: assms(4))
  from position_table_has_token [OF assms(1,2,3) this] show ?thesis
    by (simp only: assms(4))
qed

section \<open>Facts about the bundled diagrams\<close>

lemma qwerty_en_table_g:
  "case build_position_table layouts_qwerty_en True of
     Inl e \<Rightarrow> False
   | Inr pt \<Rightarrow>
       keys_with CHR ''g'' pt = [((5, 3), ''gG'')] \<and>
       keys_with CHR ''G'' pt = [((5, 3), ''gG'')] \<and>
       slots_at True pt (5, 3) =
         [Some ''fF'', Some ''tT'', Some ''yY'', Some ''hH'', Some ''bB'', Some ''vV'']"
  by code_simp

lemma keypad_tokens:
  "str_split layouts_keypad =
     ''/'' # [''*'', ''-'', ''7'', ''8'', ''9'', ''+'', ''4'', ''5'', ''6'', ''1'', ''2'', ''3'',
             ''0'', ''.'']"
  by code_simp

lemma keypad_table:
  "case build_position_table layouts_keypad False of
     Inl e \<Rightarrow> False
   | Inr pt \<Rightarrow>
       ((1, 3), ''5'') \<in> set pt \<and> last (keys_with CHR ''5'' pt) = ((1, 3), ''5'') \<and>
       list_all (\<lambda>coord. map_of pt coord \<noteq> None) (adjacency_func False 1 3) \<and>
       ((0, 2), ''7'') \<in> set pt \<and> last (keys_with CHR ''7'' pt) = ((0, 2), ''7'') \<and>
       map_of pt (- 1, 2) = None"
  by code_simp

lemma qwertz_de_table_z:
  "case build_position_table layouts_qwertz_de True of
     Inl e \<Rightarrow> False
   | Inr pt \<Rightarrow>
       ((6, 2), ''zZ'') \<in> set pt \<and> ((1, 4), ''zZ'') \<in> set pt \<and>
       list_all (\<lambda>coord. map_of pt coord \<noteq> None) (adjacency_func True 6 2) \<and>
       keys_with CHR ''z'' pt = [((6, 2), ''zZ''), ((1, 4), ''zZ'')] \<and>
       slots_at True pt (1, 4) = [Some ''<>'', Some ''aA'', Some ''sS'', Some ''xX'', None, None]"
  by code_simp

lemma row_787:
  "str_split ''7 8 7'' = ''7'' # [''8'', ''7'']"
  "str_split_sep (CHR 0x0A) ''7 8 7'' = [''7 8 7'']"
  "str_index ''7 8 7'' ''7'' = Some 0"
  "str_index ''7 8 7'' ''8'' = Some 2"
  by code_simp+

lemma table_787: "build_position_table ''7 8 7'' False = Inr [((0, 0), ''7''), ((1, 0), ''8'')]"
  by code_simp

section \<open>The direction offsets\<close>

text \<open>
  Claim C1. For every coordinate \<open>(x, y)\<close> the offsets that \<open>build_graph\<close> uses to resolve
  adjacency are, for slanted geometry, the six coordinates left, upper-left, upper-right,
  right, lower-right, lower-left in that order, and for aligned geometry the eight
  coordinates of the full neighbourhood, clockwise from the left.
\<close>

theorem adjacency_func_offsets:
  "adjacency_func True x y =
     [(x - 1, y), (x, y - 1), (x + 1, y - 1), (x + 1, y), (x, y + 1), (x - 1, y + 1)] \<and>
   adjacency_func False x y =
     [(x - 1, y), (x - 1, y - 1), (x, y - 1), (x + 1, y - 1),
      (x + 1, y), (x + 1, y + 1), (x, y + 1), (x - 1, y + 1)] \<and>
   get_slanted_adjacent_coords = adjacency_func True \<and>
   get_aligned_adjacent_coords = adjacency_func False"
  by (simp add: adjacency_func_def get_slanted_adjacent_coords_def
        get_aligned_adjacent_coords_def)

section \<open>Column coordinates\<close>

text \<open>
  Claim C2. Every token of a line should get the column (its own character offset minus
  the slant) divided by the unit width, and a non-zero remainder of that division should
  make the build fail. The code takes the offset from \<open>line.index(token)\<close>, which finds
  the first place where the token's string occurs, so a token that repeats an earlier
  token of its line is not placed by its own offset. Aligned geometry, slant 0:
  \<^item> in the one-line diagram \<open>7 8 7\<close> the third token stands at offset 4 (two tokens
    lie before that offset), the unit is 2, the division leaves no remainder and gives
    column 2; the position table is built with nothing at \<open>(2, 0)\<close>;
  \<^item> in the one-line diagram \<open>ab  ab\<close> (two spaces) the second token stands at offset 4,
    the unit is 3 and the remainder is 1; the position table is built all the same and
    \<open>build_graph\<close> returns a graph.
\<close>

theorem repeated_token_column:
  "str_split ''7 8 7'' = [''7'', ''8'', ''7''] \<and>
   str_split (take 4 ''7 8 7'') = [''7'', ''8''] \<and> drop 4 ''7 8 7'' = ''7'' \<and>
   (4 - slant_of False 0) mod (int (length ''7'') + 1) = 0 \<and>
   (4 - slant_of False 0) div (int (length ''7'') + 1) = 2 \<and>
   build_position_table ''7 8 7'' False = Inr [((0, 0), ''7''), ((1, 0), ''8'')] \<and>
   str_split ''ab  ab'' = [''ab'', ''ab''] \<and>
   str_split (take 4 ''ab  ab'') = [''ab''] \<and> drop 4 ''ab  ab'' = ''ab'' \<and>
   (4 - slant_of False 0) mod (int (length ''ab'') + 1) = 1 \<and>
   build_position_table ''ab  ab'' False = Inr [((0, 0), ''ab'')] \<and>
   build_graph ''ab  ab'' False =
     Inr [(CHR ''a'', [None, None, None, None, None, None, None, None]),
          (CHR ''b'', [None, None, None, None, None, None, None, None])]"
  by code_simp

section \<open>The bundled keypads and QWERTY\<close>

text \<open>
  Claim C3. On the diagram \<open>keypad\<close>, built with aligned geometry, the entry of \<open>7\<close>
  should be \<open>[None, None, None, "=", "8", "5", "4", None]\<close>, as the docstring of
  \<open>build_graph\<close> also says. The code at this input: the top row of \<open>keypad\<close> is
  \<open>/ * -\<close>, the key above and to the right of \<open>7\<close> is \<open>/\<close>, and the entry is
  \<open>[None, None, None, "/", "8", "5", "4", None]\<close>, which is not the documented list; the
  documented list is the entry of \<open>7\<close> on the sibling diagram \<open>mac_keypad\<close>.
\<close>

theorem keypad_7_entries:
  "(case build_graph layouts_keypad False of Inr g \<Rightarrow> map_of g CHR ''7'' | Inl e \<Rightarrow> None) =
     Some [None, None, None, Some ''/'', Some ''8'', Some ''5'', Some ''4'', None] \<and>
   (case build_graph layouts_keypad False of Inr g \<Rightarrow> map_of g CHR ''7'' | Inl e \<Rightarrow> None) \<noteq>
     Some [None, None, None, Some ''='', Some ''8'', Some ''5'', Some ''4'', None] \<and>
   (case build_graph layouts_mac_keypad False of Inr g \<Rightarrow> map_of g CHR ''7'' | Inl e \<Rightarrow> None) =
     Some [None, None, None, Some ''='', Some ''8'', Some ''5'', Some ''4'', None]"
proof -
  have keypad:
    "(case build_graph layouts_keypad False of Inr g \<Rightarrow> map_of g CHR ''7'' | Inl e \<Rightarrow> None) =
       Some [None, None, None, Some ''/'', Some ''8'', Some ''5'', Some ''4'', None]"
    by code_simp
  have mac:
    "(case build_graph layouts_mac_keypad False of Inr g \<Rightarrow> map_of g CHR ''7'' | Inl e \<Rightarrow> None) =
       Some [None, None, None, Some ''='', Some ''8'', Some ''5'', Some ''4'', None]"
    by code_simp
  show ?thesis by (simp add: keypad mac)
qed

text \<open>
  Claim C4. On the slanted diagram \<open>qwerty_en\<close> the entries of \<open>g\<close> and of \<open>G\<close> are both
  \<open>["fF", "tT", "yY", "hH", "bB", "vV"]\<close>.
\<close>

theorem qwerty_en_g_entries:
  "(case build_graph layouts_qwerty_en True of
      Inr g \<Rightarrow> [map_of g CHR ''g'', map_of g CHR ''G'']
    | Inl e \<Rightarrow> []) =
   [Some [Some ''fF'', Some ''tT'', Some ''yY'', Some ''hH'', Some ''bB'', Some ''vV''],
    Some [Some ''fF'', Some ''tT'', Some ''yY'', Some ''hH'', Some ''bB'', Some ''vV'']]"
proof -
  from qwerty_en_table_g obtain pt where
    pt: "build_position_table layouts_qwerty_en True = Inr pt"
    and k: "keys_with CHR ''g'' pt = [((5, 3), ''gG'')]"
           "keys_with CHR ''G'' pt = [((5, 3), ''gG'')]"
    and s: "slots_at True pt (5, 3) =
         [Some ''fF'', Some ''tT'', Some ''yY'', Some ''hH'', Some ''bB'', Some ''vV'']"
    by (auto split: sum.splits)
  from graph_entry [OF pt] obtain g where g: "build_graph layouts_qwerty_en True = Inr g"
    and entry: "\<And>c. map_of g c =
              (if keys_with c pt = [] then None
               else Some (slots_at True pt (fst (last (keys_with c pt)))))"
    by blast
  show ?thesis by (simp add: g entry k s)
qed

section \<open>Two tokens at one coordinate\<close>

text \<open>
  Claim C5 as stated fails. In the one-line diagram \<open>7 8 7\<close> the first and the third
  token both resolve to offset 0, that is to the coordinate \<open>(0, 0)\<close>; the position table
  is built with one entry for them and \<open>build_graph\<close> returns a graph.
\<close>

theorem shared_coordinate_counterexample:
  "str_split ''7 8 7'' = [''7'', ''8'', ''7''] \<and>
   str_index ''7 8 7'' ''7'' = Some 0 \<and>
   build_position_table ''7 8 7'' False = Inr [((0, 0), ''7''), ((1, 0), ''8'')] \<and>
   build_graph ''7 8 7'' False =
     Inr [(CHR ''7'', [None, None, None, None, Some ''8'', None, None, None]),
          (CHR ''8'', [Some ''7'', None, None, None, None, None, None, None])]"
  by code_simp

text \<open>
  Claim C5, amended. The builder has no check for an occupied coordinate. In a diagram
  that has a token, whose tokens all have the width of the first one and whose offsets all
  leave the remainder zero, two tokens of a line that resolve to the same coordinate are
  the same string; the later assignment overwrites the earlier one with that string, the
  position table is built and \<open>build_graph\<close> returns a graph.
\<close>

theorem shared_coordinate_is_accepted:
  assumes "str_split layout_str = token0 # more"
    and "\<forall>token \<in> set more. length token = length token0"
    and "\<forall>y < length (str_split_sep (CHR 0x0A) layout_str).
           \<forall>token \<in> set (str_split (str_split_sep (CHR 0x0A) layout_str ! y)).
             \<exists>i. str_index (str_split_sep (CHR 0x0A) layout_str ! y) token = Some i \<and>
                 (int i - slant_of slanted (int y)) mod (int (length token0) + 1) = 0"
    and "y < length (str_split_sep (CHR 0x0A) layout_str)"
    and "line = str_split_sep (CHR 0x0A) layout_str ! y"
    and "p < q" and "q < length (str_split line)"
    and "str_index line (str_split line ! p) = Some ip"
    and "str_index line (str_split line ! q) = Some iq"
    and "(int ip - slant_of slanted (int y)) div (int (length token0) + 1) =
         (int iq - slant_of slanted (int y)) div (int (length token0) + 1)"
  shows "\<exists>position_table g.
           build_position_table layout_str slanted = Inr position_table \<and>
           build_graph layout_str slanted = Inr g \<and>
           str_split line ! p = str_split line ! q \<and>
           map_of position_table
             ((int iq - slant_of slanted (int y)) div (int (length token0) + 1), int y) =
             Some (str_split line ! q)"
proof -
  have "\<exists>pt. build_position_table layout_str slanted = Inr pt"
  proof (rule build_position_table_total [OF assms(1)])
    fix t assume "t \<in> set more"
    with assms(2) show "length t = length token0" by simp
  next
    fix y t
    assume "y < length (str_split_sep (CHR 0x0A) layout_str)"
      "t \<in> set (str_split (str_split_sep (CHR 0x0A) layout_str ! y))"
    with assms(3)
    show "\<exists>i. str_index (str_split_sep (CHR 0x0A) layout_str ! y) t = Some i \<and>
              (int i - slant_of slanted (int y)) mod (int (length token0) + 1) = 0"
      by simp
  qed
  then obtain pt where pt: "build_position_table layout_str slanted = Inr pt" ..
  from graph_entry [OF pt] obtain g where g: "build_graph layout_str slanted = Inr g"
    by blast
  let ?tp = "str_split line ! p" and ?tq = "str_split line ! q"
  from assms(6,7) have mem: "?tp \<in> set (str_split line)" "?tq \<in> set (str_split line)"
    by simp_all
  from position_table_has_token_line [OF pt assms(1,4,5) mem(1)] assms(8)
  have mp: "(int ip - slant_of slanted (int y)) mod (int (length token0) + 1) = 0"
    by auto
  from position_table_has_token_line [OF pt assms(1,4,5) mem(2)] assms(9)
  have mq: "(int iq - slant_of slanted (int y)) mod (int (length token0) + 1) = 0"
    and at: "map_of pt ((int iq - slant_of slanted (int y)) div (int (length token0) + 1), int y)
               = Some ?tq"
    by auto
  from divmod_inj [OF mp mq assms(10)] have "ip = iq" by simp
  moreover have "length ?tp = length ?tq"
  proof -
    from build_position_table_Inr [OF pt] assms(1)
    have len: "\<And>t. t \<in> set (str_split layout_str) \<Longrightarrow> length t = length token0"
      by auto
    from assms(4,5) have "line \<in> set (str_split_sep (CHR 0x0A) layout_str)" by simp
    with mem have "?tp \<in> set (str_split layout_str)" "?tq \<in> set (str_split layout_str)"
      by (auto intro: token_of_line)
    then show ?thesis by (simp add: len)
  qed
  ultimately have "?tp = ?tq"
    using assms(8,9) by (auto intro: same_offset_same_token)
  with pt g at show ?thesis by blast
qed

text \<open>The theorem at the first and the third token of \<open>7 8 7\<close>.\<close>

theorem shared_coordinate_is_accepted_witness:
  "\<exists>pt g. build_position_table ''7 8 7'' False = Inr pt \<and>
          build_graph ''7 8 7'' False = Inr g \<and>
          str_split ''7 8 7'' ! 0 = str_split ''7 8 7'' ! 2 \<and>
          map_of pt (0, 0) = Some ''7''"
proof -
  have widths: "\<forall>token \<in> set [''8'', ''7'']. length token = length ''7''" by simp
  have rem: "\<forall>y < length (str_split_sep (CHR 0x0A) ''7 8 7'').
           \<forall>token \<in> set (str_split (str_split_sep (CHR 0x0A) ''7 8 7'' ! y)).
             \<exists>i. str_index (str_split_sep (CHR 0x0A) ''7 8 7'' ! y) token = Some i \<and>
                 (int i - slant_of False (int y)) mod (int (length ''7'') + 1) = 0"
    by (simp add: row_787 slant_of_def)
  have y: "0 < length (str_split_sep (CHR 0x0A) ''7 8 7'')"
    and line: "''7 8 7'' = str_split_sep (CHR 0x0A) ''7 8 7'' ! 0"
    and q: "2 < length (str_split ''7 8 7'')"
    and ip: "str_index ''7 8 7'' (str_split ''7 8 7'' ! 0) = Some 0"
    and iq: "str_index ''7 8 7'' (str_split ''7 8 7'' ! 2) = Some 0"
    by (simp_all add: row_787)
  have same: "(int 0 - slant_of False (int 0)) div (int (length ''7'') + 1) =
              (int 0 - slant_of False (int 0)) div (int (length ''7'') + 1)" ..
  have pq: "(0::nat) < 2" by simp
  have t2: "str_split ''7 8 7'' ! 2 = ''7''" by (simp add: row_787)
  from shared_coordinate_is_accepted [OF row_787(1) widths rem y line pq q ip iq same]
  show ?thesis by (simp add: slant_of_def t2)
qed

section \<open>Tokens of different widths\<close>

text \<open>
  Claim C6. A diagram with a token whose length differs from the length of the first
  token fails with the \<open>AssertionError\<close> whose message is \<open>token len mismatch\<close> followed by
  the diagram; the error is raised while the position table is not yet begun, so no
  graph, not even a partial one, is produced. (The model keeps the assertions on, as the
  interpreter does unless it is started with \<open>-O\<close>.)
\<close>

theorem token_len_mismatch_is_fatal:
  assumes "str_split layout_str = token0 # more"
    and "token \<in> set more" and "length token \<noteq> length token0"
  shows "build_position_table layout_str slanted =
           Inl (AssertionError (token_len_mismatch layout_str)) \<and>
         build_graph layout_str slanted =
           Inl (AssertionError (token_len_mismatch layout_str))"
proof -
  from assms(2,3) have "\<not> list_all (\<lambda>token. length token = length token0) more"
    by (auto simp: list_all_iff)
  with assms(1) have "build_position_table layout_str slanted =
           Inl (AssertionError (token_len_mismatch layout_str))"
    by (simp add: build_position_table_def)
  then show ?thesis by (simp add: build_graph_def)
qed

text \<open>The theorem at the diagram \<open>ab c\<close>.\<close>

theorem token_len_mismatch_witness:
  "str_split ''ab c'' = [''ab'', ''c''] \<and>
   build_graph ''ab c'' False = Inl (AssertionError (token_len_mismatch ''ab c''))"
proof -
  have t: "str_split ''ab c'' = ''ab'' # [''c'']" by code_simp
  have m: "''c'' \<in> set [''c'']" and l: "length ''c'' \<noteq> length ''ab''" by simp_all
  from token_len_mismatch_is_fatal [OF t m l, of False] t show ?thesis by simp
qed

section \<open>Keys and arity of the graph\<close>

text \<open>
  Claim C7. When \<open>build_graph\<close> returns a graph, every character of every token of the
  diagram is a key of the graph, every value has 6 slots for slanted and 8 slots for
  aligned geometry, and every value is the list of the position-table lookups at the
  offsets of one key, in the order of the offsets, so that an absence-marker stands at
  the index of its direction.
\<close>

theorem graph_keys_and_arity:
  assumes "build_graph layout_str slanted = Inr g"
  shows "(\<forall>token \<in> set (str_split layout_str). \<forall>c \<in> set token. c \<in> fst ` set g) \<and>
         (\<forall>entry \<in> set g. length (snd entry) = (if slanted then 6 else 8)) \<and>
         (\<exists>position_table. build_position_table layout_str slanted = Inr position_table \<and>
            (\<forall>entry \<in> set g. snd entry =
               slots_at slanted position_table
                 (fst (last (keys_with (fst entry) position_table)))))"
proof -
  from build_graph_Inr [OF assms] obtain pt where pt: "build_position_table layout_str slanted = Inr pt"
    by blast
  from graph_entry [OF pt] assms have d: "distinct (map fst g)"
    and keys: "fst ` set g = (\<Union>item\<in>set pt. set (snd item))"
    and entry: "\<And>c. map_of g c =
              (if keys_with c pt = [] then None
               else Some (slots_at slanted pt (fst (last (keys_with c pt)))))"
    by auto
  have slots: "snd entry = slots_at slanted pt (fst (last (keys_with (fst entry) pt)))"
    if "entry \<in> set g" for entry
  proof -
    from that d have "map_of g (fst entry) = Some (snd entry)" by simp
    with entry [of "fst entry"] show ?thesis by (simp split: if_splits)
  qed
  have "c \<in> fst ` set g" if "token \<in> set (str_split layout_str)" "c \<in> set token" for token c
  proof -
    from that(1) obtain token0 more where t0: "str_split layout_str = token0 # more"
      by (cases "str_split layout_str") auto
    from token_has_line [OF that(1)] obtain j where
      j: "j < length (str_split_sep (CHR 0x0A) layout_str)"
         "token \<in> set (str_split (str_split_sep (CHR 0x0A) layout_str ! j))"
      by blast
    from position_table_has_token [OF pt t0 j] obtain k where "map_of pt k = Some token"
      by blast
    then have "(k, token) \<in> set pt" by (rule map_of_SomeD)
    with that(2) show ?thesis unfolding keys by force
  qed
  moreover have "\<forall>entry \<in> set g. length (snd entry) = (if slanted then 6 else 8)"
    using slots length_slots_at by metis
  ultimately show ?thesis using pt slots by blast
qed

text \<open>The theorem at the diagram \<open>keypad\<close>.\<close>

theorem graph_keys_and_arity_witness:
  "\<exists>g. build_graph layouts_keypad False = Inr g \<and>
       CHR ''7'' \<in> fst ` set g \<and> CHR ''.'' \<in> fst ` set g \<and>
       list_all (\<lambda>entry. length (snd entry) = 8) g"
proof -
  from keypad_table obtain pt where pt: "build_position_table layouts_keypad False = Inr pt"
    by (auto split: sum.splits)
  from graph_entry [OF pt] obtain g where g: "build_graph layouts_keypad False = Inr g"
    by blast
  from graph_keys_and_arity [OF g] have
    keys: "\<forall>token \<in> set (str_split layouts_keypad). \<forall>c \<in> set token. c \<in> fst ` set g"
    and arity: "\<forall>entry \<in> set g. length (snd entry) = (if False then 6 else 8)"
    by blast+
  from keys have "CHR ''7'' \<in> fst ` set g" "CHR ''.'' \<in> fst ` set g"
    by (simp_all add: keypad_tokens)
  moreover from arity have "list_all (\<lambda>entry. length (snd entry) = 8) g"
    by (simp add: list_all_iff)
  ultimately show ?thesis using g by blast
qed

section \<open>Absence-markers\<close>

text \<open>
  Claim C8 as stated fails. On the diagram \<open>qwertz_de\<close> the key at \<open>(6, 2)\<close> has the legend
  \<open>zZ\<close> and all six of its offsets are in the position table, but the slot list of \<open>z\<close>
  holds absence-markers: it is the list of the other \<open>zZ\<close> key, at \<open>(1, 4)\<close> in the bottom
  row, which is processed later.
\<close>

theorem interior_key_counterexample:
  "\<exists>pt g. build_position_table layouts_qwertz_de True = Inr pt \<and>
          build_graph layouts_qwertz_de True = Inr g \<and>
          ((6, 2), ''zZ'') \<in> set pt \<and>
          list_all (\<lambda>coord. map_of pt coord \<noteq> None) (adjacency_func True 6 2) \<and>
          map_of g CHR ''z'' = Some [Some ''<>'', Some ''aA'', Some ''sS'', Some ''xX'', None, None]"
proof -
  from qwertz_de_table_z obtain pt where
    pt: "build_position_table layouts_qwertz_de True = Inr pt"
    and key: "((6, 2), ''zZ'') \<in> set pt"
    and full: "list_all (\<lambda>coord. map_of pt coord \<noteq> None) (adjacency_func True 6 2)"
    and k: "keys_with CHR ''z'' pt = [((6, 2), ''zZ''), ((1, 4), ''zZ'')]"
    and s: "slots_at True pt (1, 4) =
              [Some ''<>'', Some ''aA'', Some ''sS'', Some ''xX'', None, None]"
    by (auto split: sum.splits)
  from graph_entry [OF pt] obtain g where g: "build_graph layouts_qwertz_de True = Inr g"
    and entry: "\<And>c. map_of g c =
              (if keys_with c pt = [] then None
               else Some (slots_at True pt (fst (last (keys_with c pt)))))"
    by blast
  have "map_of g CHR ''z'' = Some [Some ''<>'', Some ''aA'', Some ''sS'', Some ''xX'', None, None]"
    by (simp add: entry k s)
  with pt g key full show ?thesis by blast
qed

text \<open>
  Claim C8, amended. For a built diagram, a key of its position table and a character of
  the key's legend such that this key is the last item of the table, in insertion order,
  whose legend holds the character (as it is when the character is on one key only): if
  an offset of the key is absent from the table, the slot list of the character holds an
  absence-marker, and if all offsets are present it holds none.
\<close>

theorem absence_markers_of_last_key:
  assumes "build_position_table layout_str slanted = Inr position_table"
    and "build_graph layout_str slanted = Inr g"
    and "(k, legend) \<in> set position_table" and "c \<in> set legend"
    and "last (keys_with c position_table) = (k, legend)"
  shows "\<exists>slots. map_of g c = Some slots \<and>
           ((\<exists>coord \<in> set (adjacency_func slanted (fst k) (snd k)).
                 map_of position_table coord = None) \<longrightarrow> None \<in> set slots) \<and>
           ((\<forall>coord \<in> set (adjacency_func slanted (fst k) (snd k)).
                 map_of position_table coord \<noteq> None) \<longrightarrow> None \<notin> set slots)"
proof -
  from graph_entry [OF assms(1)] assms(2)
  have entry: "map_of g c =
              (if keys_with c position_table = [] then None
               else Some (slots_at slanted position_table
                            (fst (last (keys_with c position_table)))))"
    by auto
  with keys_with_nonempty [OF assms(3,4)] assms(5)
  have "map_of g c = Some (slots_at slanted position_table k)" by simp
  then show ?thesis
    by (intro exI [of _ "slots_at slanted position_table k"]) (simp add: None_in_slots)
qed

text \<open>
  The theorem on the diagram \<open>keypad\<close>, at the interior key \<open>5\<close> and at the corner key \<open>7\<close>.
\<close>

theorem absence_markers_witness:
  "\<exists>pt g slots5 slots7.
     build_position_table layouts_keypad False = Inr pt \<and>
     build_graph layouts_keypad False = Inr g \<and>
     map_of g CHR ''5'' = Some slots5 \<and> None \<notin> set slots5 \<and>
     map_of g CHR ''7'' = Some slots7 \<and> None \<in> set slots7"
proof -
  from keypad_table obtain pt where pt: "build_position_table layouts_keypad False = Inr pt"
    and k5: "((1, 3), ''5'') \<in> set pt" "last (keys_with CHR ''5'' pt) = ((1, 3), ''5'')"
    and full: "list_all (\<lambda>coord. map_of pt coord \<noteq> None) (adjacency_func False 1 3)"
    and k7: "((0, 2), ''7'') \<in> set pt" "last (keys_with CHR ''7'' pt) = ((0, 2), ''7'')"
    and left: "map_of pt (- 1, 2) = None"
    by (auto split: sum.splits)
  from graph_entry [OF pt] obtain g where g: "build_graph layouts_keypad False = Inr g"
    by blast
  have c5: "CHR ''5'' \<in> set ''5''" and c7: "CHR ''7'' \<in> set ''7''" by simp_all
  from absence_markers_of_last_key [OF pt g k5(1) c5 k5(2)] full
  obtain slots5 where s5: "map_of g CHR ''5'' = Some slots5" "None \<notin> set slots5"
    by (auto simp: list_all_iff)
  have "(- 1, 2) \<in> set (adjacency_func False 0 2)"
    by (simp add: adjacency_func_def get_aligned_adjacent_coords_def)
  with left have "\<exists>coord \<in> set (adjacency_func False (fst (0, 2)) (snd (0, 2))).
      map_of pt coord = None"
    by auto
  with absence_markers_of_last_key [OF pt g k7(1) c7 k7(2)]
  obtain slots7 where s7: "map_of g CHR ''7'' = Some slots7" "None \<in> set slots7"
    by blast
  from pt g s5 s7 show ?thesis by blast
qed

section \<open>A character on two keys\<close>

text \<open>
  Claim C9. When the position table of a diagram is built and a character is in the
  legends of two items at different coordinates, the second half of \<open>build_graph\<close> raises
  nothing: a graph is returned, it has exactly one entry for the character, and the entry
  is the slot list of the last item of the table, in insertion order, whose legend holds
  the character.
\<close>

theorem repeated_character_last_wins:
  assumes "build_position_table layout_str slanted = Inr position_table"
    and "(k1, legend1) \<in> set position_table" and "(k2, legend2) \<in> set position_table"
    and "k1 \<noteq> k2" and "c \<in> set legend1" and "c \<in> set legend2"
  shows "\<exists>g. build_graph layout_str slanted = Inr g \<and>
             length (filter (\<lambda>entry. fst entry = c) g) = 1 \<and>
             map_of g c =
               Some (slots_at slanted position_table (fst (last (keys_with c position_table))))"
proof -
  from graph_entry [OF assms(1)] obtain g where g: "build_graph layout_str slanted = Inr g"
    and d: "distinct (map fst g)"
    and keys: "fst ` set g = (\<Union>item\<in>set position_table. set (snd item))"
    and entry: "\<forall>c. map_of g c =
              (if keys_with c position_table = [] then None
               else Some (slots_at slanted position_table
                            (fst (last (keys_with c position_table)))))"
    by (elim exE conjE)
  from assms(2,5) have "c \<in> fst ` set g"
    unfolding keys by force
  with d have "length (filter (\<lambda>entry. fst entry = c) g) = 1"
    by (rule one_entry)
  moreover from entry keys_with_nonempty [OF assms(2,5)]
  have "map_of g c =
      Some (slots_at slanted position_table (fst (last (keys_with c position_table))))"
    by simp
  ultimately show ?thesis using g by (intro exI [of _ g] conjI)
qed

text \<open>The theorem at the character \<open>Z\<close> of the diagram \<open>qwertz_de\<close>.\<close>

theorem repeated_character_witness:
  "\<exists>pt g. build_position_table layouts_qwertz_de True = Inr pt \<and>
          ((6, 2), ''zZ'') \<in> set pt \<and> ((1, 4), ''zZ'') \<in> set pt \<and>
          build_graph layouts_qwertz_de True = Inr g \<and>
          length (filter (\<lambda>entry. fst entry = CHR ''Z'') g) = 1 \<and>
          map_of g CHR ''Z'' = Some (slots_at True pt (fst (last (keys_with CHR ''Z'' pt))))"
proof -
  from qwertz_de_table_z obtain pt where
    pt: "build_position_table layouts_qwertz_de True = Inr pt"
    and k1: "((6, 2), ''zZ'') \<in> set pt" and k2: "((1, 4), ''zZ'') \<in> set pt"
    by (auto split: sum.splits)
  have ne: "((6, 2) :: coord) \<noteq> (1, 4)" and c: "CHR ''Z'' \<in> set ''zZ''" by simp_all
  from repeated_character_last_wins [OF pt k1 k2 ne c c] pt k1 k2 show ?thesis by blast
qed

section \<open>A token twice on a line\<close>

text \<open>
  Claim C10. The offset of a token is the first offset at which the token occurs as a
  substring of its line. On a line of a built diagram on which a token occurs more than
  once, the position table has exactly one item of that row with that token, at the
  column of the first occurrence: the occurrences are neither recorded at separate
  coordinates nor rejected.
\<close>

theorem repeated_token_collapses:
  assumes "build_position_table layout_str slanted = Inr position_table"
    and "str_split layout_str = token0 # more"
    and "y < length (str_split_sep (CHR 0x0A) layout_str)"
    and "line = str_split_sep (CHR 0x0A) layout_str ! y"
    and "1 < count_list (str_split line) token"
  shows "\<exists>i. str_index line token = Some i \<and>
             take (length token) (drop i line) = token \<and>
             (\<forall>j < i. take (length token) (drop j line) \<noteq> token) \<and>
             filter (\<lambda>item. snd (fst item) = int y \<and> snd item = token) position_table =
               [(((int i - slant_of slanted (int y)) div (int (length token0) + 1), int y), token)]"
proof -
  let ?u = "int (length token0) + 1" and ?sl = "slant_of slanted (int y)"
  let ?P = "\<lambda>item. snd (fst item) = int y \<and> snd item = token"
  from assms(5) have mem: "token \<in> set (str_split line)"
    by (metis count_notin not_less_zero)
  from position_table_has_token_line [OF assms(1,2,3,4) mem] obtain i where
    i: "str_index line token = Some i"
    and at: "map_of position_table ((int i - ?sl) div ?u, int y) = Some token"
    by (elim exE conjE)
  have d: "distinct (map fst position_table)"
    by (rule position_table_distinct [OF assms(1)])
  then have "distinct position_table" by (simp add: distinct_map)
  then have dF: "distinct (filter ?P position_table)" by simp
  have "set (filter ?P position_table) = {(((int i - ?sl) div ?u, int y), token)}"
  proof (intro equalityI subsetI)
    fix item assume "item \<in> set (filter ?P position_table)"
    then have item: "item \<in> set position_table" "snd (fst item) = int y" "snd item = token"
      by simp_all
    then have "(fst item, token) \<in> set position_table" by (metis prod.collapse)
    with d have "map_of position_table (fst item) = Some token" by simp
    from position_table_entry [OF assms(1,2) this] obtain j i' where
      j: "j < length (str_split_sep (CHR 0x0A) layout_str)"
      "str_index (str_split_sep (CHR 0x0A) layout_str ! j) token = Some i'"
      "fst item = ((int i' - slant_of slanted (int j)) div ?u, int j)"
      by blast
    from j(3) item(2) have "j = y" by simp
    with j(2) i assms(4) have "i' = i" by simp
    with j(3) \<open>j = y\<close> item(3) have "item = (((int i - ?sl) div ?u, int y), token)"
      by (metis prod.collapse)
    then show "item \<in> {(((int i - ?sl) div ?u, int y), token)}" by simp
  next
    fix item assume "item \<in> {(((int i - ?sl) div ?u, int y), token)}"
    then have "item = (((int i - ?sl) div ?u, int y), token)" by simp
    moreover from at have "(((int i - ?sl) div ?u, int y), token) \<in> set position_table"
      by (rule map_of_SomeD)
    ultimately show "item \<in> set (filter ?P position_table)" by simp
  qed
  with dF have "filter ?P position_table = [(((int i - ?sl) div ?u, int y), token)]"
    by (rule singleton_list)
  moreover have "take (length token) (drop i line) = token"
    by (rule str_index_found [OF i])
  moreover have "\<forall>j < i. take (length token) (drop j line) \<noteq> token"
    using str_index_first [OF i] by blast
  ultimately show ?thesis using i by blast
qed

text \<open>The theorem at the token \<open>7\<close> of the one-line diagram \<open>7 8 7\<close>.\<close>

theorem repeated_token_witness:
  "count_list (str_split ''7 8 7'') ''7'' = 2 \<and>
   (\<exists>pt. build_position_table ''7 8 7'' False = Inr pt \<and>
         filter (\<lambda>item. snd (fst item) = 0 \<and> snd item = ''7'') pt = [((0, 0), ''7'')])"
proof -
  have y: "0 < length (str_split_sep (CHR 0x0A) ''7 8 7'')"
    and line: "''7 8 7'' = str_split_sep (CHR 0x0A) ''7 8 7'' ! 0"
    and n: "1 < count_list (str_split ''7 8 7'') ''7''"
    and n2: "count_list (str_split ''7 8 7'') ''7'' = 2"
    by (simp_all add: row_787)
  from repeated_token_collapses [OF table_787 row_787(1) y line n] row_787(3)
  have "filter (\<lambda>item. snd (fst item) = 0 \<and> snd item = ''7'')
          [((0, 0), ''7''), ((1, 0), ''8'')] = [((0, 0), ''7'')]"
    by simp
  with n2 table_787 show ?thesis by blast
qed

end
